theory Spec2Isabelle
  imports Main
begin

section \<open>The schema upgrade engine of store/sqlstore/upgrade.go\<close>

text \<open>
  The Go file holds three methods of \<^verbatim>\<open>Container\<close> (\<^verbatim>\<open>getVersion\<close>, \<^verbatim>\<open>setVersion\<close>,
  \<^verbatim>\<open>Upgrade\<close>), the array \<^verbatim>\<open>Upgrades\<close> and its four step functions. Everything they do
  is a call into \<^verbatim>\<open>database/sql\<close>, so the embedding makes the database explicit:

  \<^item> the committed content of the database is a \<open>store\<close>; a transaction handle
    (\<^verbatim>\<open>*sql.Tx\<close>) is a working copy of it that \<^verbatim>\<open>Commit\<close> installs and \<^verbatim>\<open>Rollback\<close>
    drops, which is the atomicity the engine is promised by its database (an engine
    that commits on its own in the middle of a transaction is not modelled);
  \<^item> every call into the database may fail. The failures the environment injects
    are a list consumed one entry per call (\<open>Some e\<close>: this call fails with \<open>e\<close> and
    does nothing; \<open>None\<close>, or the list exhausted: the call runs). A theorem that
    quantifies over the list holds for every pattern of I/O failures;
  \<^item> Go's \<^verbatim>\<open>error\<close> result is an \<open>error option\<close>, a run-time panic is an outcome of
    its own;
  \<^item> \<^verbatim>\<open>Upgrade\<close> returns, beside its result and the database it leaves, the trace
    of what it did (transaction begun, step invoked, committed, rolled back). The
    trace is ghost output: nothing computes from it.
\<close>

subsection \<open>Data\<close>

text \<open>Errors: a failure injected by the environment, and the three failures that the
  content of the version table itself decides.\<close>

datatype error = DbFault nat | NoSuchTable | ErrNoRows | ScanError

type_synonym fault_plan = "error option list"

text \<open>A value of the \<^verbatim>\<open>version INTEGER\<close> column: an integer that \<^verbatim>\<open>Scan\<close> can store
  into a Go \<^verbatim>\<open>int\<close>, or a value it cannot convert (NULL, text that is no number).\<close>

datatype cell = IntCell int | BadCell

text \<open>The SQL statements the file executes, by their text:
  \<^item> \<open>CreateVersionTable\<close>: \<^verbatim>\<open>CREATE TABLE IF NOT EXISTS whatsmeow_version (version INTEGER)\<close>
  \<^item> \<open>DeleteVersion\<close>: \<^verbatim>\<open>DELETE FROM whatsmeow_version\<close>
  \<^item> \<open>InsertVersion v\<close>: \<^verbatim>\<open>INSERT INTO whatsmeow_version (version) VALUES (?)\<close> with \<open>v\<close>
  \<^item> \<open>CreateTable t\<close>: the \<^verbatim>\<open>CREATE TABLE t (...)\<close> of a step
  \<^item> \<open>AddSigKeyColumn\<close>: \<^verbatim>\<open>ALTER TABLE whatsmeow_device ADD COLUMN adv_account_sig_key ...\<close>
  \<^item> \<open>FillSigKeyPostgres\<close>, \<open>FillSigKeySQLite\<close>: the constants \<^verbatim>\<open>fillSigKeyPostgres\<close>
    and \<^verbatim>\<open>fillSigKeySQLite\<close>.\<close>

datatype stmt =
    CreateVersionTable
  | DeleteVersion
  | InsertVersion int
  | CreateTable string
  | AddSigKeyColumn
  | FillSigKeyPostgres
  | FillSigKeySQLite

text \<open>The content of a database: the rows of \<^verbatim>\<open>whatsmeow_version\<close> (\<open>None\<close> while the
  table does not exist), and the schema statements executed so far, in order. What a
  schema statement does to the tables is the SQL engine's business; the store records
  that it was executed.\<close>

record store =
  whatsmeow_version :: "cell list option"
  schema_log :: "stmt list"

record tx =
  work :: store
  tx_faults :: fault_plan

datatype event = EvBegin | EvInvoke int tx | EvCommit store | EvRollback

record database =
  durable :: store
  faults :: fault_plan

text \<open>\<^verbatim>\<open>Container\<close>: its \<^verbatim>\<open>db\<close> is the \<open>database\<close> passed along, its \<^verbatim>\<open>log\<close> shows as
  the \<open>EvInvoke\<close> event; \<^verbatim>\<open>dialect\<close> is the field the steps read.\<close>

record container =
  dialect :: string

type_synonym upgradeFunc = "tx \<Rightarrow> container \<Rightarrow> error option \<times> tx"

datatype outcome = NoError | Error error | Panic

subsection \<open>The database calls\<close>

fun next_fault :: "fault_plan \<Rightarrow> error option \<times> fault_plan" where
  "next_fault [] = (None, [])"
| "next_fault (f # fs) = (f, fs)"

text \<open>What a statement does to a store when the call itself goes through.\<close>

fun apply_stmt :: "stmt \<Rightarrow> store \<Rightarrow> error + store" where
  "apply_stmt CreateVersionTable s =
     (case whatsmeow_version s of
        None \<Rightarrow> Inr (s\<lparr>whatsmeow_version := Some []\<rparr>)
      | Some rows \<Rightarrow> Inr s)"
| "apply_stmt DeleteVersion s =
     (case whatsmeow_version s of
        None \<Rightarrow> Inl NoSuchTable
      | Some rows \<Rightarrow> Inr (s\<lparr>whatsmeow_version := Some []\<rparr>))"
| "apply_stmt (InsertVersion v) s =
     (case whatsmeow_version s of
        None \<Rightarrow> Inl NoSuchTable
      | Some rows \<Rightarrow> Inr (s\<lparr>whatsmeow_version := Some (rows @ [IntCell v])\<rparr>))"
| "apply_stmt st s = Inr (s\<lparr>schema_log := schema_log s @ [st]\<rparr>)"

text \<open>\<^verbatim>\<open>tx.Exec\<close>: on the transaction's working copy.\<close>

definition tx_Exec :: "stmt \<Rightarrow> tx \<Rightarrow> error option \<times> tx" where
  "tx_Exec st t =
     (case next_fault (tx_faults t) of
        (Some e, fs) \<Rightarrow> (Some e, t\<lparr>tx_faults := fs\<rparr>)
      | (None, fs) \<Rightarrow>
          (case apply_stmt st (work t) of
             Inl e \<Rightarrow> (Some e, t\<lparr>tx_faults := fs\<rparr>)
           | Inr s \<Rightarrow> (None, \<lparr>work = s, tx_faults = fs\<rparr>)))"

text \<open>\<^verbatim>\<open>c.db.Exec\<close>: outside any transaction, so its effect is durable at once.\<close>

definition db_Exec :: "stmt \<Rightarrow> database \<Rightarrow> error option \<times> database" where
  "db_Exec st w =
     (case next_fault (faults w) of
        (Some e, fs) \<Rightarrow> (Some e, w\<lparr>faults := fs\<rparr>)
      | (None, fs) \<Rightarrow>
          (case apply_stmt st (durable w) of
             Inl e \<Rightarrow> (Some e, w\<lparr>faults := fs\<rparr>)
           | Inr s \<Rightarrow> (None, w\<lparr>durable := s, faults := fs\<rparr>)))"

text \<open>\<^verbatim>\<open>SELECT version FROM whatsmeow_version LIMIT 1\<close> scanned into an \<^verbatim>\<open>int\<close>, on the
  content of the table: no table, no row (\<^verbatim>\<open>sql.ErrNoRows\<close>), a row that converts, a
  row that does not.\<close>

definition scan_version :: "store \<Rightarrow> error + int" where
  "scan_version s =
     (case whatsmeow_version s of
        None \<Rightarrow> Inl NoSuchTable
      | Some [] \<Rightarrow> Inl ErrNoRows
      | Some (IntCell v # rest) \<Rightarrow> Inr v
      | Some (BadCell # rest) \<Rightarrow> Inl ScanError)"

text \<open>\<^verbatim>\<open>c.db.QueryRow(...)\<close> followed by \<^verbatim>\<open>row.Scan(&version)\<close>. \<^verbatim>\<open>QueryRow\<close> never
  returns nil; a failed query shows as the error of \<^verbatim>\<open>Scan\<close>.\<close>

definition db_QueryRow_Scan :: "database \<Rightarrow> (error + int) \<times> database" where
  "db_QueryRow_Scan w =
     (case next_fault (faults w) of
        (Some e, fs) \<Rightarrow> (Inl e, w\<lparr>faults := fs\<rparr>)
      | (None, fs) \<Rightarrow> (scan_version (durable w), w\<lparr>faults := fs\<rparr>))"

text \<open>\<^verbatim>\<open>c.db.Begin()\<close>: the handle starts as a copy of the committed content and takes
  the fault plan with it.\<close>

definition db_Begin :: "database \<Rightarrow> (error + tx) \<times> database" where
  "db_Begin w =
     (case next_fault (faults w) of
        (Some e, fs) \<Rightarrow> (Inl e, w\<lparr>faults := fs\<rparr>)
      | (None, fs) \<Rightarrow>
          (Inr \<lparr>work = durable w, tx_faults = fs\<rparr>, w\<lparr>faults := fs\<rparr>))"

text \<open>\<^verbatim>\<open>tx.Commit()\<close>: installs the working copy, or fails and installs nothing.\<close>

definition tx_Commit :: "tx \<Rightarrow> database \<Rightarrow> error option \<times> database" where
  "tx_Commit t w =
     (case next_fault (tx_faults t) of
        (Some e, fs) \<Rightarrow> (Some e, w\<lparr>faults := fs\<rparr>)
      | (None, fs) \<Rightarrow>
          (None, w\<lparr>durable := work t, faults := fs\<rparr>))"

text \<open>\<^verbatim>\<open>tx.Rollback()\<close>: the working copy is dropped whether or not the call reports an
  error.\<close>

definition tx_Rollback :: "tx \<Rightarrow> database \<Rightarrow> error option \<times> database" where
  "tx_Rollback t w =
     (case next_fault (tx_faults t) of
        (r, fs) \<Rightarrow> (r, w\<lparr>faults := fs\<rparr>))"

subsection \<open>getVersion and setVersion\<close>

definition getVersion :: "database \<Rightarrow> (int \<times> error option) \<times> database" where
  "getVersion w =
     (case db_Exec CreateVersionTable w of
        (Some err, w1) \<Rightarrow> ((- 1, Some err), w1)
      | (None, w1) \<Rightarrow>
          (case db_QueryRow_Scan w1 of
             (Inl ignored, w2) \<Rightarrow> ((0, None), w2)
           | (Inr version, w2) \<Rightarrow> ((version, None), w2)))"

definition setVersion :: "tx \<Rightarrow> int \<Rightarrow> error option \<times> tx" where
  "setVersion t version =
     (case tx_Exec DeleteVersion t of
        (Some err, t1) \<Rightarrow> (Some err, t1)
      | (None, t1) \<Rightarrow> tx_Exec (InsertVersion version) t1)"

subsection \<open>The registry and its steps\<close>

text \<open>A chain of \<^verbatim>\<open>tx.Exec\<close> calls, each followed by \<^verbatim>\<open>if err != nil { return err }\<close>.\<close>

fun exec_seq :: "stmt list \<Rightarrow> tx \<Rightarrow> error option \<times> tx" where
  "exec_seq [] t = (None, t)"
| "exec_seq (st # sts) t =
     (case tx_Exec st t of
        (Some err, t1) \<Rightarrow> (Some err, t1)
      | (None, t1) \<Rightarrow> exec_seq sts t1)"

definition upgradeV1 :: upgradeFunc where
  "upgradeV1 t c =
     exec_seq
       [CreateTable ''whatsmeow_device'',
        CreateTable ''whatsmeow_identity_keys'',
        CreateTable ''whatsmeow_pre_keys'',
        CreateTable ''whatsmeow_sessions'',
        CreateTable ''whatsmeow_sender_keys'',
        CreateTable ''whatsmeow_app_state_sync_keys'',
        CreateTable ''whatsmeow_app_state_version'',
        CreateTable ''whatsmeow_app_state_mutation_macs'',
        CreateTable ''whatsmeow_contacts'',
        CreateTable ''whatsmeow_chat_settings''] t"

definition upgradeV2 :: upgradeFunc where
  "upgradeV2 t c =
     (case tx_Exec AddSigKeyColumn t of
        (Some err, t1) \<Rightarrow> (Some err, t1)
      | (None, t1) \<Rightarrow>
          if dialect c = ''postgres'' \<or> dialect c = ''pgx''
          then tx_Exec FillSigKeyPostgres t1
          else tx_Exec FillSigKeySQLite t1)"

definition upgradeV3 :: upgradeFunc where
  "upgradeV3 t c = tx_Exec (CreateTable ''whatsmeow_message_secrets'') t"

definition upgradeV4 :: upgradeFunc where
  "upgradeV4 t c = tx_Exec (CreateTable ''whatsmeow_privacy_tokens'') t"

definition Upgrades :: "upgradeFunc list" where
  "Upgrades = [upgradeV1, upgradeV2, upgradeV3, upgradeV4]"

subsection \<open>Upgrade\<close>

text \<open>One pass through the body of the \<^verbatim>\<open>for\<close> loop (lines 53 to 73), at the loop
  variable \<open>version\<close>. \<open>NoError\<close> means the pass reached the end of the body; every
  other outcome is what \<^verbatim>\<open>Upgrade\<close> returns at once. \<^verbatim>\<open>Upgrades[version]\<close> panics on
  a negative index. On the path where \<^verbatim>\<open>setVersion\<close> fails the handle is neither
  committed nor rolled back. The third component lists what the pass did: \<open>EvBegin\<close>
  after a successful \<^verbatim>\<open>Begin\<close>, \<open>EvInvoke version t\<close> where the step is called
  with the handle \<open>t\<close> (the line logged as "Upgrading database to v..."),
  \<open>EvRollback\<close> where \<^verbatim>\<open>Rollback\<close> is called, \<open>EvCommit d\<close> after a successful
  \<^verbatim>\<open>Commit\<close> that made \<open>d\<close> the committed content.\<close>

definition upgrade_body ::
  "upgradeFunc list \<Rightarrow> container \<Rightarrow> int \<Rightarrow> database \<Rightarrow> outcome \<times> database \<times> event list" where
  "upgrade_body reg c version w =
     (case db_Begin w of
        (Inl err, w1) \<Rightarrow> (Error err, w1, [])
      | (Inr t, w1) \<Rightarrow>
          if version < 0 then (Panic, w1, [EvBegin])
          else
            (let migrateFunc = reg ! nat version
             in case migrateFunc t c of
                  (Some err, t1) \<Rightarrow>
                    (Error err, snd (tx_Rollback t1 w1),
                     [EvBegin, EvInvoke version t, EvRollback])
                | (None, t1) \<Rightarrow>
                    (case setVersion t1 (version + 1) of
                       (Some err, t2) \<Rightarrow>
                         (Error err, w1\<lparr>faults := tx_faults t2\<rparr>,
                          [EvBegin, EvInvoke version t])
                     | (None, t2) \<Rightarrow>
                         (case tx_Commit t2 w1 of
                            (Some err, w2) \<Rightarrow>
                              (Error err, w2, [EvBegin, EvInvoke version t])
                          | (None, w2) \<Rightarrow>
                              (NoError, w2,
                               [EvBegin, EvInvoke version t, EvCommit (durable w2)])))))"

text \<open>The loop \<^verbatim>\<open>for ; version < len(Upgrades); version++\<close>.\<close>

function upgrade_loop ::
  "upgradeFunc list \<Rightarrow> container \<Rightarrow> int \<Rightarrow> database \<Rightarrow> outcome \<times> database \<times> event list" where
  "upgrade_loop reg c version w =
     (if version < int (length reg) then
        (case upgrade_body reg c version w of
           (NoError, w1, es) \<Rightarrow>
             (case upgrade_loop reg c (version + 1) w1 of
                (r, w2, es') \<Rightarrow> (r, w2, es @ es'))
         | (Error err, w1, es) \<Rightarrow> (Error err, w1, es)
         | (Panic, w1, es) \<Rightarrow> (Panic, w1, es))
      else (NoError, w, []))"
  by pat_completeness auto
termination
  by (relation "measure (\<lambda>(reg, c, version, w). nat (int (length reg) - version))") auto

text \<open>\<^verbatim>\<open>Upgrade\<close>, over the registry it is given (\<open>Upgrades\<close> in the source).\<close>

definition Upgrade ::
  "upgradeFunc list \<Rightarrow> container \<Rightarrow> database \<Rightarrow> outcome \<times> database \<times> event list" where
  "Upgrade reg c w =
     (case getVersion w of
        ((version, Some err), w0) \<Rightarrow> (Error err, w0, [])
      | ((version, None), w0) \<Rightarrow> upgrade_loop reg c version w0)"

subsection \<open>Reading a run\<close>

text \<open>The version \<open>getVersion\<close> reads from a store when its calls go through: the
  first row, or 0 where the scan fails (\<^verbatim>\<open>version := 0; _ = row.Scan(&version)\<close>).\<close>

definition stored_version :: "store \<Rightarrow> int" where
  "stored_version s = (case scan_version s of Inl e \<Rightarrow> 0 | Inr v \<Rightarrow> v)"

text \<open>What the fault plan holds for the \<open>n\<close>-th database call from now (counted from
  0), and the plans under which the next \<open>n\<close> calls all go through.\<close>

definition fault_at :: "fault_plan \<Rightarrow> nat \<Rightarrow> error option" where
  "fault_at fs n = fst (next_fault (drop n fs))"

definition no_faults :: "nat \<Rightarrow> fault_plan \<Rightarrow> bool" where
  "no_faults n fs = (\<forall>i < n. fault_at fs i = None)"

text \<open>The steps a trace invoked, each with the handle it was given; and the steps whose
  transaction a trace committed, each with the store the commit installed.\<close>

fun invoked :: "event list \<Rightarrow> (int \<times> tx) list" where
  "invoked [] = []"
| "invoked (EvInvoke i t # es) = (i, t) # invoked es"
| "invoked (e # es) = invoked es"

fun committed :: "event list \<Rightarrow> (int \<times> store) list" where
  "committed (EvInvoke i t # EvCommit d # es) = (i, d) # committed es"
| "committed (e # es) = committed es"
| "committed [] = []"

text \<open>What the handle \<open>t\<close> holds once step \<open>i\<close> and then \<open>setVersion (i + 1)\<close> have
  both succeeded on it; \<open>None\<close> when either fails.\<close>

definition step_and_bump :: "upgradeFunc list \<Rightarrow> container \<Rightarrow> int \<Rightarrow> tx \<Rightarrow> store option" where
  "step_and_bump reg c i t =
     (case (reg ! nat i) t c of
        (Some e, t1) \<Rightarrow> None
      | (None, t1) \<Rightarrow>
          (case setVersion t1 (i + 1) of
             (Some e, t2) \<Rightarrow> None
           | (None, t2) \<Rightarrow> Some (work t2)))"

text \<open>A trace read from the committed store \<open>d\<close>: every commit directly follows the
  invocation of a step \<open>i\<close> on a handle that began from the store committed last, and
  installs what \<open>step_and_bump\<close> gives for it, with the version table holding the one
  row \<open>i + 1\<close>. A commit anywhere else fails the check.\<close>

fun atomic_commits :: "upgradeFunc list \<Rightarrow> container \<Rightarrow> store \<Rightarrow> event list \<Rightarrow> bool" where
  "atomic_commits reg c d [] = True"
| "atomic_commits reg c d (EvInvoke i t # EvCommit d' # es) =
     (work t = d \<and> step_and_bump reg c i t = Some d' \<and>
      whatsmeow_version d' = Some [IntCell (i + 1)] \<and> atomic_commits reg c d' es)"
| "atomic_commits reg c d (EvCommit d' # es) = False"
| "atomic_commits reg c d (e # es) = atomic_commits reg c d es"

text \<open>The committed store at the end of a trace that started from \<open>d\<close>: the last one
  committed.\<close>

fun final_store :: "store \<Rightarrow> event list \<Rightarrow> store" where
  "final_store d [] = d"
| "final_store d (EvCommit d' # es) = final_store d' es"
| "final_store d (e # es) = final_store d es"

text \<open>A trace that applies the steps of the registry from index \<open>i\<close> to the last one,
  each exactly once and in this order, starting from the committed store \<open>d\<close>: for
  each index in turn a transaction is begun, step \<open>i\<close> of the registry is invoked on
  a handle that holds the store committed last, which reads as version \<open>i\<close>, and the
  commit installs what that step followed by \<open>setVersion (i + 1)\<close> made of the handle
  (\<open>step_and_bump\<close>); the trace ends when \<open>i\<close> has reached the length of the
  registry. The result is the store the last commit installed; any other trace gives
  \<open>None\<close>.\<close>

fun steps_applied ::
  "upgradeFunc list \<Rightarrow> container \<Rightarrow> int \<Rightarrow> store \<Rightarrow> event list \<Rightarrow> store option" where
  "steps_applied reg c i d [] = (if i = int (length reg) then Some d else None)"
| "steps_applied reg c i d (EvBegin # EvInvoke j t # EvCommit d' # es) =
     (if j = i \<and> 0 \<le> i \<and> i < int (length reg) \<and> work t = d \<and> stored_version d = i \<and>
         step_and_bump reg c i t = Some d'
      then steps_applied reg c (i + 1) d' es
      else None)"
| "steps_applied reg c i d es = None"

text \<open>The store after \<^verbatim>\<open>CREATE TABLE IF NOT EXISTS whatsmeow_version\<close> went through.\<close>

definition ensure_table :: "store \<Rightarrow> store" where
  "ensure_table s = (case whatsmeow_version s of None \<Rightarrow> s\<lparr>whatsmeow_version := Some []\<rparr> | Some rows \<Rightarrow> s)"

text \<open>Concrete stores for the examples: a database with no version table, and one whose
  version table holds the single row \<open>v\<close>.\<close>

definition store0 :: store where
  "store0 = \<lparr>whatsmeow_version = None, schema_log = []\<rparr>"

definition store_at :: "int \<Rightarrow> store" where
  "store_at v = \<lparr>whatsmeow_version = Some [IntCell v], schema_log = []\<rparr>"

text \<open>Two steps for the examples, one that executes a statement and one that fails, a
  database with nothing in it, a container, and the stores the examples pass through.\<close>

definition step_ok :: upgradeFunc where
  "step_ok t c = tx_Exec (CreateTable ''t'') t"

definition step_fail :: upgradeFunc where
  "step_fail t c = (Some (DbFault 7), t)"

definition db0 :: database where
  "db0 = \<lparr>durable = store0, faults = []\<rparr>"

definition c0 :: container where
  "c0 = \<lparr>dialect = ''sqlite3''\<rparr>"

definition store1 :: store where
  "store1 = \<lparr>whatsmeow_version = Some [IntCell 1], schema_log = [CreateTable ''t'']\<rparr>"

definition store2 :: store where
  "store2 = \<lparr>whatsmeow_version = Some [IntCell 2], schema_log = [CreateTable ''t'', CreateTable ''t'']\<rparr>"

definition empty_store :: store where
  "empty_store = \<lparr>whatsmeow_version = Some [], schema_log = []\<rparr>"

text \<open>The store the four steps of \<open>Upgrades\<close> leave of an empty database under the
  container \<open>c0\<close>: the version row 4 and the fourteen schema statements of the steps,
  in order.\<close>

definition store_latest :: store where
  "store_latest =
     \<lparr>whatsmeow_version = Some [IntCell 4],
      schema_log =
        [CreateTable ''whatsmeow_device'',
         CreateTable ''whatsmeow_identity_keys'',
         CreateTable ''whatsmeow_pre_keys'',
         CreateTable ''whatsmeow_sessions'',
         CreateTable ''whatsmeow_sender_keys'',
         CreateTable ''whatsmeow_app_state_sync_keys'',
         CreateTable ''whatsmeow_app_state_version'',
         CreateTable ''whatsmeow_app_state_mutation_macs'',
         CreateTable ''whatsmeow_contacts'',
         CreateTable ''whatsmeow_chat_settings'',
         AddSigKeyColumn,
         FillSigKeySQLite,
         CreateTable ''whatsmeow_message_secrets'',
         CreateTable ''whatsmeow_privacy_tokens'']\<rparr>"

text \<open>The handle a successful \<open>db_Begin\<close> returns.\<close>

definition begun :: "database \<Rightarrow> tx" where
  "begun w = \<lparr>work = durable w, tx_faults = snd (next_fault (faults w))\<rparr>"

section \<open>Properties\<close>

subsection \<open>The loop body and the loop\<close>

lemma next_fault_snd: "snd (next_fault fs) = tl fs"
  by (cases fs) auto

lemma setVersion_ok:
  assumes "setVersion t v = (None, t')"
  shows "whatsmeow_version (work t') = Some [IntCell v] \<and> schema_log (work t') = schema_log (work t)"
  using assms
  by (auto simp: setVersion_def tx_Exec_def split: prod.splits option.splits sum.splits)

lemma body_NoError_raw:
  assumes "upgrade_body reg c v w = (NoError, w1, es)"
  shows "\<exists>t1 t2. 0 \<le> v \<and>
           (reg ! nat v) (begun w) c = (None, t1) \<and> setVersion t1 (v + 1) = (None, t2) \<and>
           durable w1 = work t2 \<and> es = [EvBegin, EvInvoke v (begun w), EvCommit (durable w1)]"
  using assms
  by (auto simp: upgrade_body_def db_Begin_def tx_Commit_def Let_def begun_def
      split: prod.splits option.splits sum.splits if_splits)

lemma body_NoError:
  assumes "upgrade_body reg c v w = (NoError, w1, es)"
  shows "es = [EvBegin, EvInvoke v (begun w), EvCommit (durable w1)] \<and>
         step_and_bump reg c v (begun w) = Some (durable w1) \<and> 0 \<le> v \<and>
         whatsmeow_version (durable w1) = Some [IntCell (v + 1)]"
proof -
  from body_NoError_raw [OF assms] obtain t1 t2 where
    h: "0 \<le> v" "(reg ! nat v) (begun w) c = (None, t1)"
       "setVersion t1 (v + 1) = (None, t2)" "durable w1 = work t2"
       "es = [EvBegin, EvInvoke v (begun w), EvCommit (durable w1)]"
    by blast
  from setVersion_ok [OF h(3)] have "whatsmeow_version (work t2) = Some [IntCell (v + 1)]"
    by simp
  with h show ?thesis
    by (simp add: step_and_bump_def)
qed

lemma body_failed:
  assumes "upgrade_body reg c v w = (r, w1, es)" and "r \<noteq> NoError"
  shows "durable w1 = durable w \<and>
         (es = [] \<or> es = [EvBegin] \<and> r = Panic \<and> v < 0 \<or>
          0 \<le> v \<and> es = [EvBegin, EvInvoke v (begun w), EvRollback] \<and>
            (\<exists>e t1. (reg ! nat v) (begun w) c = (Some e, t1) \<and> r = Error e) \<or>
          0 \<le> v \<and> es = [EvBegin, EvInvoke v (begun w)] \<and>
            (\<exists>t1. (reg ! nat v) (begun w) c = (None, t1) \<and>
               (\<forall>e t2. setVersion t1 (v + 1) = (Some e, t2) \<longrightarrow> r = Error e)))"
  using assms
  by (auto simp: upgrade_body_def db_Begin_def tx_Commit_def tx_Rollback_def Let_def begun_def
      split: prod.splits option.splits sum.splits if_splits)


declare upgrade_loop.simps [simp del]

lemma loop_done: "\<not> v < int (length reg) \<Longrightarrow> upgrade_loop reg c v w = (NoError, w, [])"
  by (subst upgrade_loop.simps) simp

lemma loop_unfold:
  "v < int (length reg) \<Longrightarrow>
   upgrade_loop reg c v w =
     (case upgrade_body reg c v w of
        (NoError, w1, es) \<Rightarrow>
          (case upgrade_loop reg c (v + 1) w1 of (r, w2, es') \<Rightarrow> (r, w2, es @ es'))
      | (Error err, w1, es) \<Rightarrow> (Error err, w1, es)
      | (Panic, w1, es) \<Rightarrow> (Panic, w1, es))"
  by (subst upgrade_loop.simps) simp

lemma loop_stop:
  assumes "v < int (length reg)" "upgrade_body reg c v w = (r, w1, es)" "r \<noteq> NoError"
  shows "upgrade_loop reg c v w = (r, w1, es)"
  using assms by (cases r) (simp_all add: loop_unfold)

lemma loop_continue:
  assumes "v < int (length reg)" "upgrade_body reg c v w = (NoError, w1, es1)"
  shows "upgrade_loop reg c v w =
           (case upgrade_loop reg c (v + 1) w1 of (r, w2, es') \<Rightarrow> (r, w2, es1 @ es'))"
  using assms by (simp add: loop_unfold)

lemma loop_induct [consumes 1, case_names finished stop continue]:
  assumes run: "upgrade_loop reg c v w = (r, w', es)"
    and finished: "\<And>v w. \<not> v < int (length reg) \<Longrightarrow> P v w NoError w []"
    and stop: "\<And>v w r w' es. v < int (length reg) \<Longrightarrow>
                 upgrade_body reg c v w = (r, w', es) \<Longrightarrow> r \<noteq> NoError \<Longrightarrow> P v w r w' es"
    and continue: "\<And>v w w1 es1 r w' es2. v < int (length reg) \<Longrightarrow>
                 upgrade_body reg c v w = (NoError, w1, es1) \<Longrightarrow>
                 upgrade_loop reg c (v + 1) w1 = (r, w', es2) \<Longrightarrow>
                 P (v + 1) w1 r w' es2 \<Longrightarrow> P v w r w' (es1 @ es2)"
  shows "P v w r w' es"
  using run
proof (induction "nat (int (length reg) - v)" arbitrary: v w r w' es)
  case 0
  then have "\<not> v < int (length reg)" by simp
  with "0.prems" finished [of v w] show ?case
    by (simp add: loop_done)
next
  case (Suc n)
  then have lt: "v < int (length reg)" by linarith
  obtain r1 w1 es1 where body: "upgrade_body reg c v w = (r1, w1, es1)"
    by (cases "upgrade_body reg c v w") auto
  show ?case
  proof (cases "r1 = NoError")
    case False
    with lt body Suc.prems have "(r, w', es) = (r1, w1, es1)"
      by (simp add: loop_stop)
    with stop [OF lt body False] show ?thesis by simp
  next
    case True
    obtain r2 w2 es2 where rest: "upgrade_loop reg c (v + 1) w1 = (r2, w2, es2)"
      by (cases "upgrade_loop reg c (v + 1) w1") auto
    from lt body True rest Suc.prems have eq: "r = r2" "w' = w2" "es = es1 @ es2"
      by (simp_all add: loop_continue)
    from Suc.hyps(2) have "n = nat (int (length reg) - (v + 1))" by linarith
    from Suc.hyps(1) [OF this rest] have "P (v + 1) w1 r2 w2 es2" .
    with continue [OF lt _ rest] body True eq show ?thesis by simp
  qed
qed

lemma invoked_append: "invoked (xs @ ys) = invoked xs @ invoked ys"
  by (induction xs rule: invoked.induct) auto

lemma loop_atomic:
  assumes "upgrade_loop reg c v w = (r, w', es)"
  shows "atomic_commits reg c (durable w) es \<and> durable w' = final_store (durable w) es"
  using assms
proof (induction rule: loop_induct)
  case (finished v w)
  show ?case by simp
next
  case (stop v w r w' es)
  from body_failed [OF stop(2,3)] show ?case by auto
next
  case (continue v w w1 es1 r w' es2)
  from body_NoError [OF continue(2)] continue(4) show ?case
    by (simp add: begun_def)
qed

lemma loop_invoked_indices:
  assumes "upgrade_loop reg c v w = (r, w', es)"
  shows "map fst (invoked es) = map (\<lambda>j. v + int j) [0..<length (invoked es)]"
  using assms
proof (induction rule: loop_induct)
  case (finished v w)
  show ?case by simp
next
  case (stop v w r w' es)
  from body_failed [OF stop(2,3)] show ?case by auto
next
  case (continue v w w1 es1 r w' es2)
  from body_NoError [OF continue(2)]
  have es1: "es1 = [EvBegin, EvInvoke v (begun w), EvCommit (durable w1)]" by simp
  have "map (\<lambda>j. v + int j) [0..<Suc (length (invoked es2))] =
        v # map (\<lambda>j. v + 1 + int j) [0..<length (invoked es2)]"
    by (simp add: map_upt_Suc del: upt_Suc)
  with continue(4) es1 show ?case
    by (simp del: upt_Suc)
qed

lemma loop_invoked_stores:
  assumes "upgrade_loop reg c v w = (r, w', es)"
  shows "\<forall>(i, t) \<in> set (invoked es).
           i = v \<and> work t = durable w \<or> whatsmeow_version (work t) = Some [IntCell i]"
  using assms
proof (induction rule: loop_induct)
  case (finished v w)
  show ?case by simp
next
  case (stop v w r w' es)
  from body_failed [OF stop(2,3)] show ?case by (auto simp: begun_def)
next
  case (continue v w w1 es1 r w' es2)
  from body_NoError [OF continue(2)] continue(4) show ?case
    by (auto simp: begun_def)
qed

lemma loop_committed_versions:
  assumes "upgrade_loop reg c v w = (r, w', es)"
  shows "\<forall>(i, d) \<in> set (committed es). whatsmeow_version d = Some [IntCell (i + 1)]"
  using assms
proof (induction rule: loop_induct)
  case (finished v w)
  show ?case by simp
next
  case (stop v w r w' es)
  from body_failed [OF stop(2,3)] show ?case by auto
next
  case (continue v w w1 es1 r w' es2)
  from body_NoError [OF continue(2)] continue(4) show ?case
    by auto
qed

lemma loop_success:
  assumes "upgrade_loop reg c v w = (r, w', es)" and "r = NoError" and "v < int (length reg)"
  shows "0 \<le> v \<and> map fst (invoked es) = map int [nat v..<length reg] \<and>
         map fst (committed es) = map int [nat v..<length reg] \<and>
         whatsmeow_version (durable w') = Some [IntCell (int (length reg))]"
  using assms
proof (induction rule: loop_induct)
  case (finished v w)
  then show ?case by simp
next
  case (stop v w r w' es)
  then show ?case by simp
next
  case (continue v w w1 es1 r w' es2)
  from body_NoError [OF continue(2)]
  have es1: "es1 = [EvBegin, EvInvoke v (begun w), EvCommit (durable w1)]"
    and v0: "0 \<le> v" and ver: "whatsmeow_version (durable w1) = Some [IntCell (v + 1)]"
    by simp_all
  from v0 continue(1) have upt: "[nat v..<length reg] = nat v # [nat (v + 1)..<length reg]"
    by (simp add: upt_conv_Cons nat_add_distrib)
  show ?case
  proof (cases "v + 1 < int (length reg)")
    case True
    with continue(4) continue.prems(1) es1 v0 upt show ?thesis by simp
  next
    case False
    with continue(3) have "w' = w1" "es2 = []" by (simp_all add: loop_done)
    moreover from False continue(1) have "v + 1 = int (length reg)" by simp
    ultimately show ?thesis using es1 v0 upt ver False by simp
  qed
qed

lemma loop_steps_applied:
  assumes "upgrade_loop reg c v w = (r, w', es)" and "r = NoError"
    and "v \<le> int (length reg)" and "stored_version (durable w) = v"
  shows "steps_applied reg c v (durable w) es = Some (durable w')"
  using assms
proof (induction rule: loop_induct)
  case (finished v w)
  then show ?case by simp
next
  case (stop v w r w' es)
  then show ?case by simp
next
  case (continue v w w1 es1 r w' es2)
  from body_NoError [OF continue(2)]
  have es1: "es1 = [EvBegin, EvInvoke v (begun w), EvCommit (durable w1)]"
    and sb: "step_and_bump reg c v (begun w) = Some (durable w1)"
    and v0: "0 \<le> v" and ver: "whatsmeow_version (durable w1) = Some [IntCell (v + 1)]"
    by simp_all
  from ver have sv: "stored_version (durable w1) = v + 1"
    by (simp add: stored_version_def scan_version_def)
  from continue(1) have le: "v + 1 \<le> int (length reg)" by simp
  from continue(4) [OF continue.prems(1) le sv]
  have "steps_applied reg c (v + 1) (durable w1) es2 = Some (durable w')" .
  with es1 sb v0 continue(1) continue.prems(3) show ?case
    by (simp add: begun_def)
qed

lemma loop_step_failure:
  assumes "upgrade_loop reg c v w = (r, w', es)"
    and "(k, t) \<in> set (invoked es)" and "(reg ! nat k) t c = (Some e, t')"
  shows "r = Error e \<and> (\<exists>pre. es = pre @ [EvBegin, EvInvoke k t, EvRollback]) \<and>
         durable w' = work t"
  using assms
proof (induction rule: loop_induct)
  case (finished v w)
  then show ?case by simp
next
  case (stop v w r w' es)
  from body_failed [OF stop(2,3)] stop.prems show ?case
    by (auto simp: begun_def)
next
  case (continue v w w1 es1 r w' es2)
  from body_NoError [OF continue(2)]
  have es1: "es1 = [EvBegin, EvInvoke v (begun w), EvCommit (durable w1)]"
    and sb: "step_and_bump reg c v (begun w) = Some (durable w1)"
    by simp_all
  from continue.prems(1) es1 have "(k, t) = (v, begun w) \<or> (k, t) \<in> set (invoked es2)"
    by (auto simp: invoked_append)
  then show ?case
  proof
    assume "(k, t) = (v, begun w)"
    with sb continue.prems(2) show ?thesis
      by (simp add: step_and_bump_def)
  next
    assume "(k, t) \<in> set (invoked es2)"
    from continue(4) [OF this continue.prems(2)] show ?thesis
      by auto
  qed
qed

lemma loop_setVersion_failure:
  assumes "upgrade_loop reg c v w = (r, w', es)"
    and "(k, t) \<in> set (invoked es)" and "(reg ! nat k) t c = (None, t1)"
    and "setVersion t1 (k + 1) = (Some e, t2)"
  shows "r = Error e \<and> (\<exists>pre. es = pre @ [EvBegin, EvInvoke k t]) \<and>
         durable w' = work t"
  using assms
proof (induction rule: loop_induct)
  case (finished v w)
  then show ?case by simp
next
  case (stop v w r w' es)
  from body_failed [OF stop(2,3)] stop.prems show ?case
    by (auto simp: begun_def)
next
  case (continue v w w1 es1 r w' es2)
  from body_NoError [OF continue(2)]
  have es1: "es1 = [EvBegin, EvInvoke v (begun w), EvCommit (durable w1)]"
    and sb: "step_and_bump reg c v (begun w) = Some (durable w1)"
    by simp_all
  from continue.prems(1) es1 have "(k, t) = (v, begun w) \<or> (k, t) \<in> set (invoked es2)"
    by (auto simp: invoked_append)
  then show ?case
  proof
    assume "(k, t) = (v, begun w)"
    with sb continue.prems(2,3) show ?thesis
      by (simp add: step_and_bump_def)
  next
    assume "(k, t) \<in> set (invoked es2)"
    from continue(4) [OF this continue.prems(2,3)] show ?thesis
      by auto
  qed
qed

subsection \<open>The fault plan and getVersion\<close>

lemma fault_at_0: "fault_at fs 0 = fst (next_fault fs)"
  by (simp add: fault_at_def)

lemma fault_at_Suc: "fault_at fs (Suc n) = fault_at (tl fs) n"
  by (simp add: fault_at_def drop_Suc)

lemma next_fault_eq: "next_fault fs = (fault_at fs 0, tl fs)"
  by (cases fs) (simp_all add: fault_at_def)

lemma tl_tl_drop: "tl (tl fs) = drop 2 fs"
  by (simp add: drop_Suc numeral_2_eq_2)

lemma no_faults_Suc: "no_faults (Suc n) fs = (fault_at fs 0 = None \<and> no_faults n (tl fs))"
  unfolding no_faults_def
proof
  assume h: "\<forall>i<Suc n. fault_at fs i = None"
  then have "fault_at fs 0 = None" by simp
  moreover have "\<forall>i<n. fault_at (tl fs) i = None"
    using h by (auto simp: fault_at_Suc [symmetric])
  ultimately show "fault_at fs 0 = None \<and> (\<forall>i<n. fault_at (tl fs) i = None)" by simp
next
  assume h: "fault_at fs 0 = None \<and> (\<forall>i<n. fault_at (tl fs) i = None)"
  show "\<forall>i<Suc n. fault_at fs i = None"
  proof (intro allI impI)
    fix i assume "i < Suc n"
    then show "fault_at fs i = None"
      using h by (cases i) (auto simp: fault_at_Suc)
  qed
qed

lemma no_faults_0: "no_faults 0 fs"
  by (simp add: no_faults_def)

lemma getVersion_create_failed:
  "fault_at (faults w) 0 = Some e \<Longrightarrow> getVersion w = ((- 1, Some e), w\<lparr>faults := tl (faults w)\<rparr>)"
  by (simp add: getVersion_def db_Exec_def next_fault_eq)

lemma getVersion_created:
  assumes "fault_at (faults w) 0 = None"
  shows "getVersion w =
           ((case fault_at (faults w) 1 of
               Some e \<Rightarrow> 0
             | None \<Rightarrow> stored_version (ensure_table (durable w)), None),
            \<lparr>durable = ensure_table (durable w), faults = drop 2 (faults w)\<rparr>)"
  using assms
  by (cases w)
     (auto simp: getVersion_def db_Exec_def db_QueryRow_Scan_def next_fault_eq ensure_table_def
        stored_version_def scan_version_def fault_at_Suc [symmetric] tl_tl_drop
        split: option.splits sum.splits list.splits cell.splits)

lemma tx_Exec_DeleteVersion_ok:
  assumes "tx_Exec DeleteVersion t = (None, t1)"
  shows "whatsmeow_version (work t1) = Some [] \<and> schema_log (work t1) = schema_log (work t)"
  using assms
  by (auto simp: tx_Exec_def split: prod.splits option.splits sum.splits)

lemma tx_Exec_InsertVersion_ok:
  assumes "tx_Exec (InsertVersion v) t1 = (None, t')"
  shows "\<exists>rows. whatsmeow_version (work t1) = Some rows \<and>
                whatsmeow_version (work t') = Some (rows @ [IntCell v]) \<and>
                schema_log (work t') = schema_log (work t1)"
  using assms
  by (auto simp: tx_Exec_def split: prod.splits option.splits sum.splits)

subsection \<open>Upgrade as a whole\<close>

lemma stored_version_ensure_table: "stored_version (ensure_table s) = stored_version s"
  by (simp add: stored_version_def scan_version_def ensure_table_def split: option.splits)

lemma ensure_table_exists: "whatsmeow_version (ensure_table s) \<noteq> None"
  by (simp add: ensure_table_def split: option.splits)

lemma ensure_table_idem: "whatsmeow_version s \<noteq> None \<Longrightarrow> ensure_table s = s"
  by (auto simp: ensure_table_def split: option.splits)

lemma stored_version_scan: "stored_version s = 0 \<or> scan_version s = Inr (stored_version s)"
  by (simp add: stored_version_def split: sum.splits)

lemma stored_version_row: "whatsmeow_version s = Some [IntCell v] \<Longrightarrow> stored_version s = v"
  by (simp add: stored_version_def scan_version_def)

lemma scan_version_row: "whatsmeow_version s = Some [IntCell v] \<Longrightarrow> scan_version s = Inr v"
  by (simp add: scan_version_def)

lemma scan_version_exists: "scan_version s = Inr v \<Longrightarrow> whatsmeow_version s \<noteq> None"
  by (auto simp: scan_version_def split: option.splits)

lemma stored_version_of_scan: "scan_version s = Inr v \<Longrightarrow> stored_version s = v"
  by (simp add: stored_version_def)

lemma getVersion_ok:
  assumes "getVersion w = ((v0, None), w0)"
  shows "durable w0 = ensure_table (durable w) \<and>
         (v0 = 0 \<or> scan_version (durable w0) = Inr v0) \<and>
         (fault_at (faults w) 1 = None \<longrightarrow> v0 = stored_version (durable w0))"
proof (cases "fault_at (faults w) 0")
  case None
  from getVersion_created [OF None] assms stored_version_scan [of "ensure_table (durable w)"]
  show ?thesis
    by (auto split: option.splits)
next
  case (Some e)
  from getVersion_create_failed [OF Some] assms show ?thesis by simp
qed

lemma getVersion_failed:
  assumes "getVersion w = ((v0, Some e), w0)"
  shows "durable w0 = durable w"
proof (cases "fault_at (faults w) 0")
  case None
  from getVersion_created [OF None] assms show ?thesis by (auto split: option.splits)
next
  case (Some e')
  from getVersion_create_failed [OF Some] assms show ?thesis by auto
qed

lemma Upgrade_cases:
  assumes "Upgrade reg c w = (r, w', es)"
  obtains (read_failed) v0 e w0 where "getVersion w = ((v0, Some e), w0)"
            "r = Error e" "w' = w0" "es = []"
  | (looped) v0 w0 where "getVersion w = ((v0, None), w0)"
            "upgrade_loop reg c v0 w0 = (r, w', es)"
proof -
  obtain v0 err w0 where g: "getVersion w = ((v0, err), w0)"
    by (cases "getVersion w") auto
  show thesis
  proof (cases err)
    case None
    with g assms looped show ?thesis by (simp add: Upgrade_def)
  next
    case (Some e)
    with g assms read_failed show ?thesis by (simp add: Upgrade_def)
  qed
qed

lemma loop_invoked_range:
  assumes "upgrade_loop reg c v w = (r, w', es)" and "(k, t) \<in> set (invoked es)"
  shows "0 \<le> k \<and> k < int (length reg)"
  using assms
proof (induction rule: loop_induct)
  case (finished v w)
  then show ?case by simp
next
  case (stop v w r w' es)
  from body_failed [OF stop(2,3)] stop.prems stop(1) show ?case by auto
next
  case (continue v w w1 es1 r w' es2)
  from body_NoError [OF continue(2)] continue(4) continue.prems continue(1) show ?case
    by (auto simp: invoked_append)
qed

lemma body_first_events:
  assumes "upgrade_body reg c v w = (r, w1, es)" and "fault_at (faults w) 0 = None" and "0 \<le> v"
  shows "\<exists>rest. es = EvBegin # EvInvoke v (begun w) # rest"
  using assms
  by (auto simp: upgrade_body_def db_Begin_def Let_def begun_def next_fault_eq
      split: prod.splits option.splits)

lemma loop_first_invocation:
  assumes "upgrade_loop reg c v w = (r, w', es)" and "fault_at (faults w) 0 = None"
    and "0 \<le> v" and "v < int (length reg)"
  shows "\<exists>rest. invoked es = (v, begun w) # rest"
proof -
  obtain r1 w1 es1 where body: "upgrade_body reg c v w = (r1, w1, es1)"
    by (cases "upgrade_body reg c v w") auto
  from body_first_events [OF body assms(2,3)] obtain rest1 where
    es1: "es1 = EvBegin # EvInvoke v (begun w) # rest1" by blast
  show ?thesis
  proof (cases "r1 = NoError")
    case False
    from loop_stop [OF assms(4) body False] assms(1) es1 show ?thesis by auto
  next
    case True
    obtain r2 w2 es2 where rest: "upgrade_loop reg c (v + 1) w1 = (r2, w2, es2)"
      by (cases "upgrade_loop reg c (v + 1) w1") auto
    from loop_continue [OF assms(4)] body True rest assms(1) have "es = es1 @ es2"
      by simp
    with es1 show ?thesis by (simp add: invoked_append)
  qed
qed

lemma Upgrade_noop_general:
  assumes "scan_version (durable w) = Inr v" and "int (length reg) \<le> v"
    and "no_faults 2 (faults w)"
  shows "Upgrade reg c w = (NoError, w\<lparr>faults := drop 2 (faults w)\<rparr>, [])"
proof -
  from assms(3) have f0: "fault_at (faults w) 0 = None" and f1: "fault_at (faults w) 1 = None"
    by (simp_all add: no_faults_def)
  from assms(1) have ex: "whatsmeow_version (durable w) \<noteq> None"
    by (rule scan_version_exists)
  from assms(1) have sv: "stored_version (durable w) = v"
    by (simp add: stored_version_def)
  from getVersion_created [OF f0] f1 ex sv
  have "getVersion w = ((v, None), \<lparr>durable = durable w, faults = drop 2 (faults w)\<rparr>)"
    by (simp add: ensure_table_idem)
  moreover have "\<lparr>durable = durable w, faults = drop 2 (faults w)\<rparr> = w\<lparr>faults := drop 2 (faults w)\<rparr>"
    by (cases w) simp
  ultimately show ?thesis
    using assms(2) by (simp add: Upgrade_def loop_done)
qed

lemma Upgrade_success_version:
  assumes "Upgrade reg c w = (NoError, w1, es)" and "0 < length reg"
  shows "\<exists>v. scan_version (durable w1) = Inr v \<and> int (length reg) \<le> v"
  using assms(1)
proof (cases rule: Upgrade_cases)
  case (read_failed v0 e w0)
  then show ?thesis by simp
next
  case (looped v0 w0)
  show ?thesis
  proof (cases "v0 < int (length reg)")
    case True
    from loop_success [OF looped(2) refl True]
    have "whatsmeow_version (durable w1) = Some [IntCell (int (length reg))]" by simp
    then show ?thesis by (simp add: scan_version_row)
  next
    case False
    with looped(2) have "w1 = w0" by (simp add: loop_done)
    moreover from False assms(2) have "v0 \<noteq> 0" by (cases reg) auto
    ultimately show ?thesis
      using getVersion_ok [OF looped(1)] False by auto
  qed
qed

lemma begun_fields: "work (begun w) = durable w" "tx_faults (begun w) = tl (faults w)"
  by (simp_all add: begun_def next_fault_snd)

lemma invoked_table_exists:
  assumes "getVersion w = ((v0, None), w0)" and "upgrade_loop reg c v0 w0 = (r, w', es)"
    and "(k, t) \<in> set (invoked es)"
  shows "whatsmeow_version (work t) \<noteq> None"
proof -
  from loop_invoked_stores [OF assms(2)] assms(3)
  have "work t = durable w0 \<or> whatsmeow_version (work t) = Some [IntCell k]" by auto
  with getVersion_ok [OF assms(1)] ensure_table_exists [of "durable w"] show ?thesis by auto
qed

lemma Upgrade_resumes:
  assumes "whatsmeow_version (durable w) \<noteq> None" and "stored_version (durable w) = k"
    and "0 \<le> k" and "k < int (length reg)" and "no_faults 3 (faults w)"
  shows "\<exists>rest. invoked (snd (snd (Upgrade reg c w))) =
           (k, \<lparr>work = durable w, tx_faults = drop 3 (faults w)\<rparr>) # rest"
proof -
  from assms(5) have f0: "fault_at (faults w) 0 = None" and f1: "fault_at (faults w) 1 = None"
    and f2: "fault_at (faults w) 2 = None"
    by (simp_all add: no_faults_def)
  define w0 where "w0 = \<lparr>durable = durable w, faults = drop 2 (faults w)\<rparr>"
  from getVersion_created [OF f0] f1 assms(1,2)
  have g: "getVersion w = ((k, None), w0)"
    by (simp add: ensure_table_idem w0_def)
  obtain r w' es where loop: "upgrade_loop reg c k w0 = (r, w', es)"
    by (cases "upgrade_loop reg c k w0") auto
  from f2 have "fault_at (faults w0) 0 = None"
    by (simp add: w0_def fault_at_def)
  from loop_first_invocation [OF loop this assms(3,4)] obtain rest where
    "invoked es = (k, begun w0) # rest" by blast
  moreover have "begun w0 = \<lparr>work = durable w, tx_faults = drop 3 (faults w)\<rparr>"
    by (simp add: begun_def w0_def next_fault_snd drop_Suc numeral_3_eq_3 numeral_2_eq_2 tl_drop)
  ultimately show ?thesis using g loop by (simp add: Upgrade_def)
qed

lemma getVersion_read_failed:
  assumes "getVersion w = ((v0, None), w0)" and "fault_at (faults w) 1 = Some e"
  shows "v0 = 0"
proof (cases "fault_at (faults w) 0")
  case None
  from getVersion_created [OF None] assms show ?thesis by simp
next
  case (Some e')
  from getVersion_create_failed [OF Some] assms show ?thesis by simp
qed

lemma invoked_version:
  assumes g: "getVersion w = ((v0, None), w0)" and loop: "upgrade_loop reg c v0 w0 = (r, w', es)"
    and inv: "(k, t) \<in> set (invoked es)" and rd: "fault_at (faults w) 1 = None \<or> 0 < k"
  shows "stored_version (work t) = k"
proof -
  from loop_invoked_stores [OF loop] inv
  have alt: "k = v0 \<and> work t = durable w0 \<or> whatsmeow_version (work t) = Some [IntCell k]"
    by auto
  show ?thesis
  proof (cases "fault_at (faults w) 1")
    case None
    with getVersion_ok [OF g] have "v0 = stored_version (durable w0)" by simp
    with alt show ?thesis by (auto simp: stored_version_row)
  next
    case (Some e)
    with rd have "0 < k" by simp
    moreover from getVersion_read_failed [OF g Some] have "v0 = 0" .
    ultimately show ?thesis using alt by (auto simp: stored_version_row)
  qed
qed

lemma loop_first_events:
  assumes "upgrade_loop reg c v w = (r, w', es)" and "fault_at (faults w) 0 = None"
    and "0 \<le> v" and "v < int (length reg)"
  shows "\<exists>rest. es = EvBegin # EvInvoke v (begun w) # rest"
proof -
  obtain r1 w1 es1 where body: "upgrade_body reg c v w = (r1, w1, es1)"
    by (cases "upgrade_body reg c v w") auto
  from body_first_events [OF body assms(2,3)] obtain rest1 where
    es1: "es1 = EvBegin # EvInvoke v (begun w) # rest1" by blast
  show ?thesis
  proof (cases "r1 = NoError")
    case False
    from loop_stop [OF assms(4) body False] assms(1) es1 show ?thesis by auto
  next
    case True
    obtain r2 w2 es2 where rest: "upgrade_loop reg c (v + 1) w1 = (r2, w2, es2)"
      by (cases "upgrade_loop reg c (v + 1) w1") auto
    from loop_continue [OF assms(4)] body True rest assms(1) have "es = es1 @ es2"
      by simp
    with es1 show ?thesis by simp
  qed
qed

lemma Upgrade_read_failed_restarts:
  assumes "whatsmeow_version (durable w) \<noteq> None" and "0 < length reg"
    and "fault_at (faults w) 0 = None" and "fault_at (faults w) 1 = Some e"
    and "fault_at (faults w) 2 = None"
  shows "\<exists>rest. snd (snd (Upgrade reg c w)) =
           EvBegin # EvInvoke 0 \<lparr>work = durable w, tx_faults = drop 3 (faults w)\<rparr> # rest"
proof -
  define w0 where "w0 = \<lparr>durable = durable w, faults = drop 2 (faults w)\<rparr>"
  from getVersion_created [OF assms(3)] assms(1,4)
  have g: "getVersion w = ((0, None), w0)"
    by (simp add: ensure_table_idem w0_def)
  obtain r w' es where loop: "upgrade_loop reg c 0 w0 = (r, w', es)"
    by (cases "upgrade_loop reg c 0 w0") auto
  from assms(5) have "fault_at (faults w0) 0 = None"
    by (simp add: w0_def fault_at_def)
  from loop_first_events [OF loop this] assms(2) obtain rest where
    "es = EvBegin # EvInvoke 0 (begun w0) # rest" by auto
  moreover have "begun w0 = \<lparr>work = durable w, tx_faults = drop 3 (faults w)\<rparr>"
    by (simp add: begun_def w0_def next_fault_snd drop_Suc numeral_3_eq_3 numeral_2_eq_2 tl_drop)
  ultimately show ?thesis using g loop by (simp add: Upgrade_def)
qed

lemma Upgrade_create_failed:
  assumes "fault_at (faults w) 0 = Some e"
  shows "Upgrade reg c w = (Error e, w\<lparr>faults := tl (faults w)\<rparr>, [])"
  using getVersion_create_failed [OF assms] by (simp add: Upgrade_def)

subsection \<open>Concrete runs\<close>

lemmas run_defs =
  Upgrade_def getVersion_def db_Exec_def db_QueryRow_Scan_def scan_version_def
  upgrade_loop.simps upgrade_body_def db_Begin_def tx_Commit_def tx_Rollback_def
  setVersion_def tx_Exec_def Let_def
  db0_def c0_def store0_def store1_def store2_def empty_store_def store_at_def
  step_ok_def step_fail_def

lemma run_ok_ok:
  "Upgrade [step_ok, step_ok] c0 db0 =
     (NoError, \<lparr>durable = store2, faults = []\<rparr>,
      [EvBegin, EvInvoke 0 \<lparr>work = empty_store, tx_faults = []\<rparr>, EvCommit store1,
       EvBegin, EvInvoke 1 \<lparr>work = store1, tx_faults = []\<rparr>, EvCommit store2])"
  by (simp add: run_defs)

lemma run_ok_fail:
  "Upgrade [step_ok, step_fail] c0 db0 =
     (Error (DbFault 7), \<lparr>durable = store1, faults = []\<rparr>,
      [EvBegin, EvInvoke 0 \<lparr>work = empty_store, tx_faults = []\<rparr>, EvCommit store1,
       EvBegin, EvInvoke 1 \<lparr>work = store1, tx_faults = []\<rparr>, EvRollback])"
  by (simp add: run_defs)

lemma run_insert_fails:
  "Upgrade [step_ok] c0 \<lparr>durable = store0, faults = [None, None, None, None, None, Some (DbFault 9)]\<rparr> =
     (Error (DbFault 9), \<lparr>durable = empty_store, faults = []\<rparr>,
      [EvBegin, EvInvoke 0 \<lparr>work = empty_store, tx_faults = [None, None, Some (DbFault 9)]\<rparr>])"
  by (simp add: run_defs)

section \<open>The claims\<close>

text \<open>Claim C1. In every run of \<open>Upgrade\<close>, over every registry and every pattern of
  failures, each commit installs exactly what step \<open>i\<close> followed by \<open>setVersion (i + 1)\<close>
  made of the store the transaction began from, with the version table holding the
  row \<open>i + 1\<close>; and the store \<open>Upgrade\<close> leaves is the last one committed (the store
  \<open>getVersion\<close> left when nothing was committed). So the committed content never
  holds a step's effect without its version, nor the version without the effect.\<close>

theorem Upgrade_commits_step_with_version:
  assumes "Upgrade reg c w = (r, w', es)"
  shows "atomic_commits reg c (durable (snd (getVersion w))) es \<and>
         durable w' = final_store (durable (snd (getVersion w))) es"
  using assms
proof (cases rule: Upgrade_cases)
  case (read_failed v0 e w0)
  then show ?thesis by simp
next
  case (looped v0 w0)
  from loop_atomic [OF looped(2)] looped(1) show ?thesis by simp
qed

theorem Upgrade_commits_step_with_version_witness:
  "Upgrade [step_ok, step_fail] c0 db0 =
     (Error (DbFault 7), \<lparr>durable = store1, faults = []\<rparr>,
      [EvBegin, EvInvoke 0 \<lparr>work = empty_store, tx_faults = []\<rparr>, EvCommit store1,
       EvBegin, EvInvoke 1 \<lparr>work = store1, tx_faults = []\<rparr>, EvRollback]) \<and>
   step_and_bump [step_ok, step_fail] c0 0 \<lparr>work = empty_store, tx_faults = []\<rparr> = Some store1 \<and>
   atomic_commits [step_ok, step_fail] c0 empty_store
     [EvBegin, EvInvoke 0 \<lparr>work = empty_store, tx_faults = []\<rparr>, EvCommit store1,
      EvBegin, EvInvoke 1 \<lparr>work = store1, tx_faults = []\<rparr>, EvRollback]"
  using Upgrade_commits_step_with_version [OF run_ok_fail] run_ok_fail
  by (simp add: run_defs step_and_bump_def)

text \<open>Claim C2. For every registry of length \<open>N\<close>, a run of \<open>Upgrade\<close> that returns no
  error on a store that reads as version 0 (no version table, no row, or a first row
  0) applies each of the \<open>N\<close> steps exactly once: its trace is, for \<open>i\<close> from 0
  to \<open>N - 1\<close> in this order, a transaction begun, step \<open>i\<close> of the registry invoked on
  the store committed last, which reads as version \<open>i\<close>, and the commit of what
  that step followed by \<open>setVersion (i + 1)\<close> made of it, and nothing else
  (\<open>steps_applied\<close>); the store \<open>Upgrade\<close> leaves is the one the last of these
  commits installed, and it reads as version \<open>N\<close>.\<close>

theorem Upgrade_from_version_0:
  assumes "stored_version (durable w) = 0" and "Upgrade reg c w = (NoError, w', es)"
  shows "steps_applied reg c 0 (ensure_table (durable w)) es = Some (durable w') \<and>
         map fst (invoked es) = map int [0..<length reg] \<and>
         map fst (committed es) = map int [0..<length reg] \<and>
         (\<forall>(i, t) \<in> set (invoked es). stored_version (work t) = i) \<and>
         stored_version (durable w') = int (length reg)"
  using assms(2)
proof (cases rule: Upgrade_cases)
  case (read_failed v0 e w0)
  then show ?thesis by simp
next
  case (looped v0 w0)
  from getVersion_ok [OF looped(1)]
  have d0: "durable w0 = ensure_table (durable w)"
    and rd: "v0 = 0 \<or> scan_version (durable w0) = Inr v0"
    by blast+
  from d0 assms(1) have w0: "stored_version (durable w0) = 0"
    by (simp only: stored_version_ensure_table)
  from rd w0 have v0: "v0 = 0"
    using stored_version_of_scan [of "durable w0" v0] by blast
  from loop_steps_applied [OF looped(2) refl, unfolded v0, OF _ w0] d0
  have applied: "steps_applied reg c 0 (ensure_table (durable w)) es = Some (durable w')"
    by simp
  from loop_invoked_stores [OF looped(2)] w0 v0
  have stores: "\<forall>(i, t) \<in> set (invoked es). stored_version (work t) = i"
    by (auto simp: stored_version_row)
  show ?thesis
  proof (cases "0 < length reg")
    case True
    with loop_success [OF looped(2) refl] v0 stores applied show ?thesis
      by (simp add: stored_version_row)
  next
    case False
    with looped(2) v0 w0 applied show ?thesis by (simp add: loop_done)
  qed
qed

theorem Upgrade_from_version_0_witness:
  "stored_version (durable db0) = 0 \<and>
   fst (Upgrade Upgrades c0 db0) = NoError \<and>
   durable (fst (snd (Upgrade Upgrades c0 db0))) = store_latest \<and>
   steps_applied Upgrades c0 0 empty_store (snd (snd (Upgrade Upgrades c0 db0))) =
     Some store_latest \<and>
   map fst (invoked (snd (snd (Upgrade Upgrades c0 db0)))) = [0, 1, 2, 3] \<and>
   map fst (committed (snd (snd (Upgrade Upgrades c0 db0)))) = [0, 1, 2, 3] \<and>
   stored_version (durable (fst (snd (Upgrade Upgrades c0 db0)))) = 4"
proof -
  have v: "stored_version (durable db0) = 0"
    by (simp add: stored_version_def run_defs)
  have ok: "fst (Upgrade Upgrades c0 db0) = NoError"
    by (simp add: run_defs Upgrades_def upgradeV1_def upgradeV2_def upgradeV3_def upgradeV4_def)
  have d: "durable (fst (snd (Upgrade Upgrades c0 db0))) = store_latest"
    by (simp add: run_defs Upgrades_def upgradeV1_def upgradeV2_def upgradeV3_def upgradeV4_def
        store_latest_def)
  have e: "ensure_table (durable db0) = empty_store"
    by (simp add: ensure_table_def run_defs)
  from ok have run: "Upgrade Upgrades c0 db0 =
      (NoError, fst (snd (Upgrade Upgrades c0 db0)), snd (snd (Upgrade Upgrades c0 db0)))"
    by (metis prod.collapse)
  have up: "[0..<4] = [0, 1, 2, 3]" by (simp add: upt_rec)
  from Upgrade_from_version_0 [OF v run] v ok d e up show ?thesis
    by (simp add: Upgrades_def)
qed

text \<open>Claim C3. As the claim states it, after a failure of step \<open>k\<close> the persisted
  version would be \<open>k\<close> and the next \<open>Upgrade\<close> would start at step \<open>k\<close>. With the
  version 2 stored and a \<^verbatim>\<open>SELECT\<close> that fails, \<open>getVersion\<close> returns 0 and
  \<open>Upgrade\<close> invokes step 0; its first statement fails, the transaction is rolled
  back and the error returned, the persisted version is 2, and the next \<open>Upgrade\<close>
  invokes the steps 2 and 3.\<close>

theorem Upgrade_step_failure_counterexample:
  "Upgrade Upgrades c0
      \<lparr>durable = store_at 2, faults = [None, Some (DbFault 1), None, Some (DbFault 2)]\<rparr> =
     (Error (DbFault 2), \<lparr>durable = store_at 2, faults = []\<rparr>,
      [EvBegin, EvInvoke 0 \<lparr>work = store_at 2, tx_faults = [Some (DbFault 2)]\<rparr>, EvRollback]) \<and>
   fst ((Upgrades ! nat 0) \<lparr>work = store_at 2, tx_faults = [Some (DbFault 2)]\<rparr> c0) =
     Some (DbFault 2) \<and>
   stored_version (store_at 2) = 2 \<and>
   map fst (invoked (snd (snd (Upgrade Upgrades c0 \<lparr>durable = store_at 2, faults = []\<rparr>)))) =
     [2, 3]"
  by (simp add: run_defs stored_version_def Upgrades_def
      upgradeV1_def upgradeV2_def upgradeV3_def upgradeV4_def)

text \<open>Claim C3. (amended) If step \<open>k\<close>, invoked in a run of \<open>Upgrade\<close> with the handle
  \<open>t\<close>, fails with \<open>e\<close>, then \<open>Upgrade\<close> returns \<open>e\<close>, the last thing it did was to
  roll the transaction back, and the committed content is what it was when the
  transaction began: the last store committed, with the effects of the steps
  committed before and none of step \<open>k\<close>. When \<open>k\<close> is above 0, or the
  \<^verbatim>\<open>SELECT\<close> of this call's \<open>getVersion\<close> was not failed by the environment, the
  persisted version is \<open>k\<close>, and the next \<open>Upgrade\<close> whose first three database
  calls go through invokes step \<open>k\<close> first, on that same store. (Step 0 after a failed
  \<^verbatim>\<open>SELECT\<close> is the case left out: the error of the read is discarded and step 0 runs
  whatever version is stored.)\<close>

theorem Upgrade_step_failure:
  assumes run: "Upgrade reg c w = (r, w', es)"
    and inv: "(k, t) \<in> set (invoked es)"
    and fails: "(reg ! nat k) t c = (Some e, t')"
  shows "r = Error e \<and>
         (\<exists>pre. es = pre @ [EvBegin, EvInvoke k t, EvRollback]) \<and>
         durable w' = work t \<and>
         durable w' = final_store (durable (snd (getVersion w))) es \<and>
         (fault_at (faults w) 1 = None \<or> 0 < k \<longrightarrow>
            stored_version (durable w') = k \<and>
            (\<forall>fs. no_faults 3 fs \<longrightarrow>
               (\<exists>rest. invoked (snd (snd (Upgrade reg c (w'\<lparr>faults := fs\<rparr>)))) =
                         (k, \<lparr>work = durable w', tx_faults = drop 3 fs\<rparr>) # rest)))"
  using run
proof (cases rule: Upgrade_cases)
  case (read_failed v0 e w0)
  with inv show ?thesis by simp
next
  case (looped v0 w0)
  from loop_step_failure [OF looped(2) inv fails]
  have a: "r = Error e" "\<exists>pre. es = pre @ [EvBegin, EvInvoke k t, EvRollback]"
      "durable w' = work t"
    by auto
  from loop_atomic [OF looped(2)] looped(1)
  have b: "durable w' = final_store (durable (snd (getVersion w))) es" by simp
  from loop_invoked_range [OF looped(2) inv] have k: "0 \<le> k" "k < int (length reg)" by auto
  from invoked_table_exists [OF looped inv] a(3)
  have ex: "whatsmeow_version (durable w') \<noteq> None" by simp
  have sv: "stored_version (durable w') = k" if "fault_at (faults w) 1 = None \<or> 0 < k"
    using invoked_version [OF looped inv that] a(3) by simp
  have "\<exists>rest. invoked (snd (snd (Upgrade reg c (w'\<lparr>faults := fs\<rparr>)))) =
                 (k, \<lparr>work = durable w', tx_faults = drop 3 fs\<rparr>) # rest"
    if "fault_at (faults w) 1 = None \<or> 0 < k" "no_faults 3 fs" for fs
    using Upgrade_resumes [of "w'\<lparr>faults := fs\<rparr>" k reg c] that sv ex k by simp
  with a b sv show ?thesis by simp
qed

theorem Upgrade_step_failure_witness:
  "Upgrade [step_ok, step_fail] c0 db0 =
     (Error (DbFault 7), \<lparr>durable = store1, faults = []\<rparr>,
      [EvBegin, EvInvoke 0 \<lparr>work = empty_store, tx_faults = []\<rparr>, EvCommit store1,
       EvBegin, EvInvoke 1 \<lparr>work = store1, tx_faults = []\<rparr>, EvRollback]) \<and>
   ([step_ok, step_fail] ! nat 1) \<lparr>work = store1, tx_faults = []\<rparr> c0 =
     (Some (DbFault 7), \<lparr>work = store1, tx_faults = []\<rparr>) \<and>
   fault_at (faults db0) 1 = None \<and>
   stored_version store1 = 1 \<and>
   (\<exists>rest. invoked (snd (snd (Upgrade [step_ok, step_fail] c0 \<lparr>durable = store1, faults = []\<rparr>))) =
             (1, \<lparr>work = store1, tx_faults = []\<rparr>) # rest)"
proof -
  have inv: "(1, \<lparr>work = store1, tx_faults = []\<rparr>) \<in> set (invoked
      [EvBegin, EvInvoke 0 \<lparr>work = empty_store, tx_faults = []\<rparr>, EvCommit store1,
       EvBegin, EvInvoke 1 \<lparr>work = store1, tx_faults = []\<rparr>, EvRollback])"
    by simp
  have fails: "([step_ok, step_fail] ! nat 1) \<lparr>work = store1, tx_faults = []\<rparr> c0 =
      (Some (DbFault 7), \<lparr>work = store1, tx_faults = []\<rparr>)"
    by (simp add: step_fail_def)
  have rd: "fault_at (faults db0) 1 = None"
    by (simp add: fault_at_def db0_def)
  have nf: "no_faults 3 []" by (simp add: no_faults_def fault_at_def)
  from Upgrade_step_failure [OF run_ok_fail inv fails] rd
  have sv: "stored_version store1 = 1"
    and "\<forall>fs. no_faults 3 fs \<longrightarrow>
          (\<exists>rest. invoked (snd (snd (Upgrade [step_ok, step_fail] c0
                     (\<lparr>durable = store1, faults = []\<rparr>\<lparr>faults := fs\<rparr>)))) =
                   (1, \<lparr>work = store1, tx_faults = drop 3 fs\<rparr>) # rest)"
    by simp_all
  from this(2) [rule_format, OF nf] run_ok_fail fails rd sv show ?thesis
    by simp
qed

text \<open>Claim C4. As the claim states it, \<open>upgradeV2\<close> under a dialect it does not name would
  return an error. Under \<^verbatim>\<open>mysql\<close> it returns no error and executes the SQLite text.\<close>

theorem upgradeV2_unknown_dialect_counterexample:
  "upgradeV2 \<lparr>work = store_at 1, tx_faults = []\<rparr> \<lparr>dialect = ''mysql''\<rparr> =
     (None, \<lparr>work = \<lparr>whatsmeow_version = Some [IntCell 1],
                      schema_log = [AddSigKeyColumn, FillSigKeySQLite]\<rparr>, tx_faults = []\<rparr>)"
  by (simp add: upgradeV2_def tx_Exec_def store_at_def)

text \<open>Claim C4. (amended) \<open>upgradeV2\<close>, the one step that reads the dialect, executes the
  Postgres backfill when the dialect is \<^verbatim>\<open>postgres\<close> or \<^verbatim>\<open>pgx\<close> and the SQLite backfill
  under every other dialect, named or not; when neither of its two statements fails it
  returns no error, and an error it returns is the failure of one of the two
  statements, never the dialect.\<close>

theorem upgradeV2_dialect_default:
  "(no_faults 2 (tx_faults t) \<longrightarrow>
      upgradeV2 t c =
        (None,
         \<lparr>work = (work t)\<lparr>schema_log := schema_log (work t) @
                    [AddSigKeyColumn,
                     if dialect c = ''postgres'' \<or> dialect c = ''pgx''
                     then FillSigKeyPostgres else FillSigKeySQLite]\<rparr>,
          tx_faults = drop 2 (tx_faults t)\<rparr>)) \<and>
   (\<forall>e. fst (upgradeV2 t c) = Some e \<longrightarrow>
      fault_at (tx_faults t) 0 = Some e \<or> fault_at (tx_faults t) 1 = Some e)"
  by (auto simp: upgradeV2_def tx_Exec_def next_fault_eq numeral_2_eq_2 no_faults_Suc
        fault_at_Suc tl_tl_drop [unfolded numeral_2_eq_2]
        split: prod.splits option.splits sum.splits)

theorem upgradeV2_dialect_default_witness:
  "no_faults 2 [] \<and>
   upgradeV2 \<lparr>work = store_at 1, tx_faults = []\<rparr> \<lparr>dialect = ''sqlite3''\<rparr> =
     (None, \<lparr>work = \<lparr>whatsmeow_version = Some [IntCell 1],
                      schema_log = [AddSigKeyColumn, FillSigKeySQLite]\<rparr>, tx_faults = []\<rparr>) \<and>
   upgradeV2 \<lparr>work = store_at 1, tx_faults = []\<rparr> \<lparr>dialect = ''postgres''\<rparr> =
     (None, \<lparr>work = \<lparr>whatsmeow_version = Some [IntCell 1],
                      schema_log = [AddSigKeyColumn, FillSigKeyPostgres]\<rparr>, tx_faults = []\<rparr>)"
  using upgradeV2_dialect_default [of "\<lparr>work = store_at 1, tx_faults = []\<rparr>" "\<lparr>dialect = ''sqlite3''\<rparr>"]
        upgradeV2_dialect_default [of "\<lparr>work = store_at 1, tx_faults = []\<rparr>" "\<lparr>dialect = ''postgres''\<rparr>"]
  by (simp add: no_faults_def fault_at_def store_at_def)

text \<open>Claim C5. As the claim states it, \<open>getVersion\<close> on a store with no version table would
  leave a table with exactly one row. It leaves a table with no row: \<open>getVersion\<close> never
  inserts.\<close>

theorem getVersion_one_row_counterexample:
  "whatsmeow_version (durable \<lparr>durable = store0, faults = []\<rparr>) = None \<and>
   getVersion \<lparr>durable = store0, faults = []\<rparr> =
     ((0, None), \<lparr>durable = \<lparr>whatsmeow_version = Some [], schema_log = []\<rparr>, faults = []\<rparr>) \<and>
   map_option length (whatsmeow_version (durable (snd (getVersion \<lparr>durable = store0, faults = []\<rparr>))))
     = Some 0"
  by (simp add: getVersion_def db_Exec_def db_QueryRow_Scan_def scan_version_def store0_def)

text \<open>Claim C5. (amended) When the \<^verbatim>\<open>CREATE TABLE IF NOT EXISTS\<close> statement goes through:
  on a store with no version table \<open>getVersion\<close> creates the table, returns 0 with no
  error, and afterwards the table exists and holds no row; on a store whose table exists
  the committed content is left as it was; on a table with no row it returns 0 with no
  error.\<close>

theorem getVersion_creates_table_without_row:
  assumes "fault_at (faults w) 0 = None"
  shows "(whatsmeow_version (durable w) = None \<longrightarrow>
            fst (getVersion w) = (0, None) \<and>
            whatsmeow_version (durable (snd (getVersion w))) = Some [] \<and>
            schema_log (durable (snd (getVersion w))) = schema_log (durable w)) \<and>
         (whatsmeow_version (durable w) \<noteq> None \<longrightarrow> durable (snd (getVersion w)) = durable w) \<and>
         (whatsmeow_version (durable w) = Some [] \<longrightarrow> fst (getVersion w) = (0, None))"
  using assms
  by (auto simp: getVersion_created ensure_table_def stored_version_def scan_version_def
        split: option.splits)

theorem getVersion_creates_table_without_row_witness:
  "fault_at (faults \<lparr>durable = store0, faults = []\<rparr>) 0 = None \<and>
   fst (getVersion \<lparr>durable = store0, faults = []\<rparr>) = (0, None) \<and>
   whatsmeow_version (durable (snd (getVersion \<lparr>durable = store0, faults = []\<rparr>))) = Some []"
  using getVersion_creates_table_without_row [of "\<lparr>durable = store0, faults = []\<rparr>"]
  by (simp add: fault_at_def store0_def)

text \<open>Claim C6. For every integer \<open>v\<close> and every prior content of the version table of the
  transaction (no row, one row, or more), a successful \<open>setVersion t v\<close> leaves the table
  holding exactly the one row \<open>v\<close> and touches nothing else; it is the \<^verbatim>\<open>DELETE\<close> of all
  rows followed by the \<^verbatim>\<open>INSERT\<close> of \<open>v\<close>.\<close>

theorem setVersion_replaces_rows:
  assumes "setVersion t v = (None, t')"
  shows "whatsmeow_version (work t') = Some [IntCell v] \<and>
         schema_log (work t') = schema_log (work t) \<and>
         (\<exists>t1. tx_Exec DeleteVersion t = (None, t1) \<and> whatsmeow_version (work t1) = Some [] \<and>
               tx_Exec (InsertVersion v) t1 = (None, t'))"
proof -
  obtain r1 t1 where del: "tx_Exec DeleteVersion t = (r1, t1)"
    by (cases "tx_Exec DeleteVersion t") auto
  with assms have r1: "r1 = None" and ins: "tx_Exec (InsertVersion v) t1 = (None, t')"
    by (auto simp: setVersion_def split: option.splits)
  from del r1 have cleared: "whatsmeow_version (work t1) = Some []"
      "schema_log (work t1) = schema_log (work t)"
    using tx_Exec_DeleteVersion_ok by auto
  from tx_Exec_InsertVersion_ok [OF ins] cleared
  have "whatsmeow_version (work t') = Some [IntCell v]"
      "schema_log (work t') = schema_log (work t)"
    by auto
  with del r1 ins cleared show ?thesis by auto
qed

theorem setVersion_replaces_rows_witness:
  "setVersion \<lparr>work = store_at 3, tx_faults = []\<rparr> 4 = (None, \<lparr>work = store_at 4, tx_faults = []\<rparr>) \<and>
   whatsmeow_version (work \<lparr>work = store_at 4, tx_faults = []\<rparr>) = Some [IntCell 4]"
proof -
  have run: "setVersion \<lparr>work = store_at 3, tx_faults = []\<rparr> 4 =
               (None, \<lparr>work = store_at 4, tx_faults = []\<rparr>)"
    by (simp add: setVersion_def tx_Exec_def store_at_def)
  from setVersion_replaces_rows [OF run] run show ?thesis by simp
qed

text \<open>Claim C7. If, after step \<open>k\<close> succeeded in a run of \<open>Upgrade\<close>, \<open>setVersion (k + 1)\<close>
  fails with \<open>e\<close>, then \<open>Upgrade\<close> returns \<open>e\<close>; the trace ends at the invocation of
  the step, so the transaction was neither committed nor rolled back, and the
  committed content is what it was when the transaction began.\<close>

theorem Upgrade_setVersion_failure:
  assumes run: "Upgrade reg c w = (r, w', es)"
    and inv: "(k, t) \<in> set (invoked es)"
    and step: "(reg ! nat k) t c = (None, t1)"
    and fails: "setVersion t1 (k + 1) = (Some e, t2)"
  shows "r = Error e \<and>
         (\<exists>pre. es = pre @ [EvBegin, EvInvoke k t]) \<and>
         durable w' = work t \<and>
         durable w' = final_store (durable (snd (getVersion w))) es"
  using run
proof (cases rule: Upgrade_cases)
  case (read_failed v0 e w0)
  with inv show ?thesis by simp
next
  case (looped v0 w0)
  from loop_setVersion_failure [OF looped(2) inv step fails] loop_atomic [OF looped(2)] looped(1)
  show ?thesis by simp
qed

theorem Upgrade_setVersion_failure_witness:
  "Upgrade [step_ok] c0 \<lparr>durable = store0, faults = [None, None, None, None, None, Some (DbFault 9)]\<rparr> =
     (Error (DbFault 9), \<lparr>durable = empty_store, faults = []\<rparr>,
      [EvBegin, EvInvoke 0 \<lparr>work = empty_store, tx_faults = [None, None, Some (DbFault 9)]\<rparr>]) \<and>
   ([step_ok] ! nat 0) \<lparr>work = empty_store, tx_faults = [None, None, Some (DbFault 9)]\<rparr> c0 =
     (None, \<lparr>work = \<lparr>whatsmeow_version = Some [], schema_log = [CreateTable ''t'']\<rparr>,
              tx_faults = [None, Some (DbFault 9)]\<rparr>) \<and>
   setVersion \<lparr>work = \<lparr>whatsmeow_version = Some [], schema_log = [CreateTable ''t'']\<rparr>,
                tx_faults = [None, Some (DbFault 9)]\<rparr> (0 + 1) =
     (Some (DbFault 9),
      \<lparr>work = \<lparr>whatsmeow_version = Some [], schema_log = [CreateTable ''t'']\<rparr>, tx_faults = []\<rparr>) \<and>
   durable \<lparr>durable = empty_store, faults = []\<rparr> =
     work \<lparr>work = empty_store, tx_faults = [None, None, Some (DbFault 9)]\<rparr>"
proof -
  have inv: "(0, \<lparr>work = empty_store, tx_faults = [None, None, Some (DbFault 9)]\<rparr>) \<in> set (invoked
      [EvBegin, EvInvoke 0 \<lparr>work = empty_store, tx_faults = [None, None, Some (DbFault 9)]\<rparr>])"
    by simp
  have step: "([step_ok] ! nat 0) \<lparr>work = empty_store, tx_faults = [None, None, Some (DbFault 9)]\<rparr> c0 =
      (None, \<lparr>work = \<lparr>whatsmeow_version = Some [], schema_log = [CreateTable ''t'']\<rparr>,
               tx_faults = [None, Some (DbFault 9)]\<rparr>)"
    by (simp add: step_ok_def tx_Exec_def empty_store_def)
  have fails: "setVersion \<lparr>work = \<lparr>whatsmeow_version = Some [], schema_log = [CreateTable ''t'']\<rparr>,
                tx_faults = [None, Some (DbFault 9)]\<rparr> (0 + 1) =
     (Some (DbFault 9),
      \<lparr>work = \<lparr>whatsmeow_version = Some [], schema_log = [CreateTable ''t'']\<rparr>, tx_faults = []\<rparr>)"
    by (simp add: tx_Exec_def setVersion_def)
  from Upgrade_setVersion_failure [OF run_insert_fails inv step fails] run_insert_fails step fails
  show ?thesis by simp
qed

text \<open>Claim C8. As the claim states it, \<open>Upgrade\<close> on a store whose persisted version
  is the length of the registry would return no error, begin no transaction and
  invoke no step. With the version 4 stored and a \<^verbatim>\<open>SELECT\<close> that fails,
  \<open>getVersion\<close> returns 0, and \<open>Upgrade\<close> begins a transaction and invokes step 0
  (here its first statement fails in turn, and \<open>Upgrade\<close> returns that error).\<close>

theorem Upgrade_at_latest_read_failure_counterexample:
  "scan_version (store_at 4) = Inr (int (length Upgrades)) \<and>
   Upgrade Upgrades c0
      \<lparr>durable = store_at 4, faults = [None, Some (DbFault 1), None, Some (DbFault 2)]\<rparr> =
     (Error (DbFault 2), \<lparr>durable = store_at 4, faults = []\<rparr>,
      [EvBegin, EvInvoke 0 \<lparr>work = store_at 4, tx_faults = [Some (DbFault 2)]\<rparr>, EvRollback])"
  by (simp add: run_defs Upgrades_def upgradeV1_def)

text \<open>Claim C8. (amended) With the version table holding the row \<open>N\<close>, the length of
  the registry, what \<open>Upgrade\<close> does is decided by the two database calls of
  \<open>getVersion\<close>. When both go through, \<open>Upgrade\<close> returns no error with an empty
  trace (no transaction begun, no step invoked) and leaves the database as it was but
  for the two entries of the fault plan it consumed; hence, for a registry that is not
  empty, an \<open>Upgrade\<close> that follows one that returned no error changes nothing when
  its two calls go through. When the \<^verbatim>\<open>CREATE TABLE IF NOT EXISTS\<close> fails, \<open>Upgrade\<close>
  returns that error and does nothing else. When the \<^verbatim>\<open>SELECT\<close> fails, its error is
  discarded, and \<open>Upgrade\<close> begins a transaction (if \<^verbatim>\<open>Begin\<close> goes through) and
  invokes step 0 on the stored content.\<close>

theorem Upgrade_at_latest_is_noop:
  "(scan_version (durable w) = Inr (int (length reg)) \<and> no_faults 2 (faults w) \<longrightarrow>
      Upgrade reg c w = (NoError, w\<lparr>faults := drop 2 (faults w)\<rparr>, [])) \<and>
   (0 < length reg \<and> Upgrade reg c w = (NoError, w1, es) \<and> no_faults 2 fs \<longrightarrow>
      Upgrade reg c (w1\<lparr>faults := fs\<rparr>) = (NoError, w1\<lparr>faults := drop 2 fs\<rparr>, [])) \<and>
   (fault_at (faults w) 0 = Some e \<longrightarrow>
      Upgrade reg c w = (Error e, w\<lparr>faults := tl (faults w)\<rparr>, [])) \<and>
   (scan_version (durable w) = Inr (int (length reg)) \<and> 0 < length reg \<and>
    fault_at (faults w) 0 = None \<and> fault_at (faults w) 1 = Some e \<and>
    fault_at (faults w) 2 = None \<longrightarrow>
      (\<exists>rest. snd (snd (Upgrade reg c w)) =
         EvBegin # EvInvoke 0 \<lparr>work = durable w, tx_faults = drop 3 (faults w)\<rparr> # rest))"
proof (intro conjI impI)
  assume "scan_version (durable w) = Inr (int (length reg)) \<and> no_faults 2 (faults w)"
  then show "Upgrade reg c w = (NoError, w\<lparr>faults := drop 2 (faults w)\<rparr>, [])"
    using Upgrade_noop_general [of w "int (length reg)" reg c] by simp
next
  assume h: "0 < length reg \<and> Upgrade reg c w = (NoError, w1, es) \<and> no_faults 2 fs"
  then obtain v where "scan_version (durable w1) = Inr v" "int (length reg) \<le> v"
    using Upgrade_success_version [of reg c w w1 es] by blast
  with h show "Upgrade reg c (w1\<lparr>faults := fs\<rparr>) = (NoError, w1\<lparr>faults := drop 2 fs\<rparr>, [])"
    using Upgrade_noop_general [of "w1\<lparr>faults := fs\<rparr>" v reg c] by simp
next
  assume "fault_at (faults w) 0 = Some e"
  then show "Upgrade reg c w = (Error e, w\<lparr>faults := tl (faults w)\<rparr>, [])"
    by (rule Upgrade_create_failed)
next
  assume h: "scan_version (durable w) = Inr (int (length reg)) \<and> 0 < length reg \<and>
    fault_at (faults w) 0 = None \<and> fault_at (faults w) 1 = Some e \<and>
    fault_at (faults w) 2 = None"
  then have "whatsmeow_version (durable w) \<noteq> None"
    using scan_version_exists [of "durable w" "int (length reg)"] by simp
  with h show "\<exists>rest. snd (snd (Upgrade reg c w)) =
         EvBegin # EvInvoke 0 \<lparr>work = durable w, tx_faults = drop 3 (faults w)\<rparr> # rest"
    using Upgrade_read_failed_restarts [of w reg e c] by simp
qed

theorem Upgrade_at_latest_is_noop_witness:
  "scan_version (durable \<lparr>durable = store2, faults = []\<rparr>) = Inr (int (length [step_ok, step_ok])) \<and>
   no_faults 2 [] \<and>
   Upgrade [step_ok, step_ok] c0 db0 =
     (NoError, \<lparr>durable = store2, faults = []\<rparr>,
      [EvBegin, EvInvoke 0 \<lparr>work = empty_store, tx_faults = []\<rparr>, EvCommit store1,
       EvBegin, EvInvoke 1 \<lparr>work = store1, tx_faults = []\<rparr>, EvCommit store2]) \<and>
   Upgrade [step_ok, step_ok] c0 \<lparr>durable = store2, faults = []\<rparr> =
     (NoError, \<lparr>durable = store2, faults = []\<rparr>, []) \<and>
   Upgrade [step_ok, step_ok] c0 \<lparr>durable = store2, faults = [Some (DbFault 1)]\<rparr> =
     (Error (DbFault 1), \<lparr>durable = store2, faults = []\<rparr>, []) \<and>
   (\<exists>rest. snd (snd (Upgrade [step_ok, step_ok] c0
                       \<lparr>durable = store2, faults = [None, Some (DbFault 1)]\<rparr>)) =
      EvBegin # EvInvoke 0 \<lparr>work = store2, tx_faults = []\<rparr> # rest)"
proof -
  have sv: "scan_version (durable \<lparr>durable = store2, faults = []\<rparr>) = Inr (int (length [step_ok, step_ok]))"
    by (simp add: scan_version_def store2_def)
  have nf: "no_faults 2 []" by (simp add: no_faults_def fault_at_def)
  have sv': "scan_version (durable \<lparr>durable = store2, faults = [None, Some (DbFault 1)]\<rparr>) =
      Inr (int (length [step_ok, step_ok]))"
    by (simp add: scan_version_def store2_def)
  have f: "fault_at [None, Some (DbFault 1)] 0 = None"
      "fault_at [None, Some (DbFault 1)] 1 = Some (DbFault 1)"
      "fault_at [None, Some (DbFault 1)] 2 = None"
      "fault_at [Some (DbFault 1)] 0 = Some (DbFault 1)"
    by (simp_all add: fault_at_def)
  from Upgrade_at_latest_is_noop
         [of "\<lparr>durable = store2, faults = []\<rparr>" "[step_ok, step_ok]" c0 "\<lparr>durable = store2, faults = []\<rparr>" "[]" "[]"]
       sv nf run_ok_ok
  have a: "Upgrade [step_ok, step_ok] c0 \<lparr>durable = store2, faults = []\<rparr> =
     (NoError, \<lparr>durable = store2, faults = []\<rparr>, [])"
    by simp
  from Upgrade_at_latest_is_noop
         [of "\<lparr>durable = store2, faults = [Some (DbFault 1)]\<rparr>" "[step_ok, step_ok]" c0 _ _ _ "DbFault 1"] f
  have b: "Upgrade [step_ok, step_ok] c0 \<lparr>durable = store2, faults = [Some (DbFault 1)]\<rparr> =
     (Error (DbFault 1), \<lparr>durable = store2, faults = []\<rparr>, [])"
    by simp
  from Upgrade_at_latest_is_noop
         [of "\<lparr>durable = store2, faults = [None, Some (DbFault 1)]\<rparr>" "[step_ok, step_ok]" c0 _ _ _
             "DbFault 1"] sv' f
  have c: "\<exists>rest. snd (snd (Upgrade [step_ok, step_ok] c0
                       \<lparr>durable = store2, faults = [None, Some (DbFault 1)]\<rparr>)) =
      EvBegin # EvInvoke 0 \<lparr>work = store2, tx_faults = []\<rparr> # rest"
    by simp
  from a b c sv nf run_ok_ok show ?thesis by simp
qed

text \<open>Claim C9. As the claim states it, step \<open>i\<close> would only ever be invoked while the
  stored version is \<open>i\<close>. With the stored version 2 and a \<^verbatim>\<open>SELECT\<close> that fails,
  \<open>getVersion\<close> returns 0 and \<open>Upgrade\<close> invokes step 0 (here its first statement
  fails in turn, and the error returned is that of the step).\<close>

theorem Upgrade_read_failure_counterexample:
  "scan_version (store_at 2) = Inr 2 \<and>
   Upgrade Upgrades c0
      \<lparr>durable = store_at 2, faults = [None, Some (DbFault 1), None, Some (DbFault 2)]\<rparr> =
     (Error (DbFault 2), \<lparr>durable = store_at 2, faults = []\<rparr>,
      [EvBegin, EvInvoke 0 \<lparr>work = store_at 2, tx_faults = [Some (DbFault 2)]\<rparr>, EvRollback])"
  by (simp add: run_defs Upgrades_def upgradeV1_def)

text \<open>Claim C9. (amended) In every run of \<open>Upgrade\<close>, failed ones included, the steps
  invoked are consecutive in registry order and start at the version \<open>getVersion\<close>
  returned, which is the stored row or 0; every step but the first of the run is
  invoked with the version table holding exactly the row \<open>i\<close>, the first one with
  the store as \<open>getVersion\<close> left it; and every commit leaves the version table
  holding exactly the row \<open>i + 1\<close>.\<close>

theorem Upgrade_invocations_follow_read_version:
  assumes "Upgrade reg c w = (r, w', es)" and "getVersion w = ((v0, err), w0)"
  shows "(err = None \<longrightarrow> v0 = 0 \<or> scan_version (durable w0) = Inr v0) \<and>
         map fst (invoked es) = map (\<lambda>j. v0 + int j) [0..<length (invoked es)] \<and>
         (\<forall>(i, t) \<in> set (invoked es).
            i = v0 \<and> work t = durable w0 \<or> whatsmeow_version (work t) = Some [IntCell i]) \<and>
         (\<forall>(i, d) \<in> set (committed es). whatsmeow_version d = Some [IntCell (i + 1)])"
  using assms(1)
proof (cases rule: Upgrade_cases)
  case (read_failed v1 e w1)
  with assms(2) show ?thesis by auto
next
  case (looped v1 w1)
  with assms(2) have eq: "v1 = v0" "w1 = w0" "err = None" by simp_all
  from getVersion_ok [OF looped(1)] loop_invoked_indices [OF looped(2)]
    loop_invoked_stores [OF looped(2)] loop_committed_versions [OF looped(2)] eq
  show ?thesis by auto
qed

theorem Upgrade_invocations_follow_read_version_witness:
  "getVersion db0 = ((0, None), \<lparr>durable = empty_store, faults = []\<rparr>) \<and>
   Upgrade [step_ok, step_fail] c0 db0 =
     (Error (DbFault 7), \<lparr>durable = store1, faults = []\<rparr>,
      [EvBegin, EvInvoke 0 \<lparr>work = empty_store, tx_faults = []\<rparr>, EvCommit store1,
       EvBegin, EvInvoke 1 \<lparr>work = store1, tx_faults = []\<rparr>, EvRollback]) \<and>
   map fst (invoked
      [EvBegin, EvInvoke 0 \<lparr>work = empty_store, tx_faults = []\<rparr>, EvCommit store1,
       EvBegin, EvInvoke 1 \<lparr>work = store1, tx_faults = []\<rparr>, EvRollback]) = [0, 1] \<and>
   whatsmeow_version (work \<lparr>work = store1, tx_faults = []\<rparr>) = Some [IntCell 1]"
proof -
  have g: "getVersion db0 = ((0, None), \<lparr>durable = empty_store, faults = []\<rparr>)"
    by (simp add: run_defs)
  from Upgrade_invocations_follow_read_version [OF run_ok_fail g] g run_ok_fail show ?thesis
    by (simp add: store1_def)
qed

text \<open>Claim C10. While the version table exists and its creation statement goes through, a
  failure of the \<^verbatim>\<open>SELECT\<close> (injected by the environment) or of the scan (no row, or a
  row that does not convert to an integer) is ignored: \<open>getVersion\<close> returns
  \<open>(0, nil)\<close> and leaves the committed content as it was.\<close>

theorem getVersion_ignores_read_failure:
  assumes "whatsmeow_version (durable w) = Some rows"
    and "fault_at (faults w) 0 = None"
    and "fault_at (faults w) 1 = Some e \<or> scan_version (durable w) = Inl e"
  shows "getVersion w = ((0, None), w\<lparr>faults := drop 2 (faults w)\<rparr>)"
  using assms
  by (cases w)
     (auto simp: getVersion_created ensure_table_def stored_version_def scan_version_def
        split: option.splits)

theorem getVersion_ignores_read_failure_witness:
  "getVersion \<lparr>durable = store_at 2, faults = [None, Some (DbFault 1)]\<rparr> =
     ((0, None), \<lparr>durable = store_at 2, faults = []\<rparr>) \<and>
   getVersion \<lparr>durable = \<lparr>whatsmeow_version = Some [BadCell], schema_log = []\<rparr>, faults = []\<rparr> =
     ((0, None), \<lparr>durable = \<lparr>whatsmeow_version = Some [BadCell], schema_log = []\<rparr>, faults = []\<rparr>)"
  using getVersion_ignores_read_failure
          [of "\<lparr>durable = store_at 2, faults = [None, Some (DbFault 1)]\<rparr>" "[IntCell 2]" "DbFault 1"]
        getVersion_ignores_read_failure
          [of "\<lparr>durable = \<lparr>whatsmeow_version = Some [BadCell], schema_log = []\<rparr>, faults = []\<rparr>"
              "[BadCell]" ScanError]
  by (simp add: fault_at_def store_at_def scan_version_def)

end
